theory Spec2Isabelle
  imports Main "HOL-Library.Word"
begin

section \<open>Data model\<close>

text \<open>
  A Python \<open>str\<close> is a sequence of Unicode code points and \<open>bytes\<close> a sequence of
  values below 256.  Code points are natural numbers (the ones Python can hold lie below
  \<open>0x110000\<close>), bytes are 8-bit words.  The hidden character is a \<open>str\<close> argument in
  the source, so it is a \<open>str\<close> here as well; the documented case is a string of length 1.
\<close>

type_synonym codepoint = nat
type_synonym str = "codepoint list"
type_synonym byte = "8 word"
type_synonym bytes = "byte list"

datatype error =
    ValueError
  | UnicodeEncodeError
  | UnicodeDecodeError
  | IndexError
  | StopIteration
  | OverflowError

text \<open>
  The \<open>encoding\<close> argument names a codec of the Python runtime; \<open>str.encode\<close> and
  \<open>bytes.decode\<close> run its two halves, and both may raise.  A codec is therefore a pair of
  fallible functions, and every function below takes the codec where the source takes
  its name.
\<close>

record codec =
  str_encode :: "str \<Rightarrow> error + bytes"
  bytes_decode :: "bytes \<Rightarrow> error + str"

definition literal :: "string \<Rightarrow> str" where
  "literal s = map of_char s"

subsection \<open>The default codec: UTF-8\<close>

definition is_surrogate :: "codepoint \<Rightarrow> bool" where
  "is_surrogate c = (55296 \<le> c \<and> c < 57344)"

definition utf8_encode_char :: "codepoint \<Rightarrow> error + nat list" where
  "utf8_encode_char c =
     (if c < 128 then Inr [c]
      else if c < 2048 then Inr [192 + c div 64, 128 + c mod 64]
      else if is_surrogate c then Inl UnicodeEncodeError
      else if c < 65536 then Inr [224 + c div 4096, 128 + (c div 64) mod 64, 128 + c mod 64]
      else if c < 1114112 then
        Inr [240 + c div 262144, 128 + (c div 4096) mod 64, 128 + (c div 64) mod 64,
             128 + c mod 64]
      else Inl UnicodeEncodeError)"

fun utf8_encode_nat :: "str \<Rightarrow> error + nat list" where
  "utf8_encode_nat [] = Inr []"
| "utf8_encode_nat (c # cs) =
     (case utf8_encode_char c of
        Inl e \<Rightarrow> Inl e
      | Inr bs \<Rightarrow> (case utf8_encode_nat cs of Inl e \<Rightarrow> Inl e | Inr rest \<Rightarrow> Inr (bs @ rest)))"

definition utf8_encode :: "str \<Rightarrow> error + bytes" where
  "utf8_encode s = (case utf8_encode_nat s of Inl e \<Rightarrow> Inl e | Inr ns \<Rightarrow> Inr (map of_nat ns))"

definition is_cont :: "nat \<Rightarrow> bool" where
  "is_cont b = (128 \<le> b \<and> b < 192)"

definition cons_ok :: "codepoint \<Rightarrow> error + str \<Rightarrow> error + str" where
  "cons_ok c r = (case r of Inl e \<Rightarrow> Inl e | Inr cs \<Rightarrow> Inr (c # cs))"

fun utf8_decode_nat :: "nat list \<Rightarrow> error + str" where
  "utf8_decode_nat [] = Inr []"
| "utf8_decode_nat (b0 # bs) =
     (if b0 < 128 then cons_ok b0 (utf8_decode_nat bs)
      else if 194 \<le> b0 \<and> b0 < 224 then
        (case bs of
           b1 # bs' \<Rightarrow>
             if is_cont b1
             then cons_ok ((b0 - 192) * 64 + (b1 - 128)) (utf8_decode_nat bs')
             else Inl UnicodeDecodeError
         | _ \<Rightarrow> Inl UnicodeDecodeError)
      else if 224 \<le> b0 \<and> b0 < 240 then
        (case bs of
           b1 # b2 # bs' \<Rightarrow>
             (let cp = (b0 - 224) * 4096 + (b1 - 128) * 64 + (b2 - 128)
              in if is_cont b1 \<and> is_cont b2 \<and> 2048 \<le> cp \<and> \<not> is_surrogate cp
                 then cons_ok cp (utf8_decode_nat bs')
                 else Inl UnicodeDecodeError)
         | _ \<Rightarrow> Inl UnicodeDecodeError)
      else if 240 \<le> b0 \<and> b0 < 245 then
        (case bs of
           b1 # b2 # b3 # bs' \<Rightarrow>
             (let cp = (b0 - 240) * 262144 + (b1 - 128) * 4096 + (b2 - 128) * 64 + (b3 - 128)
              in if is_cont b1 \<and> is_cont b2 \<and> is_cont b3 \<and> 65536 \<le> cp \<and> cp < 1114112
                 then cons_ok cp (utf8_decode_nat bs')
                 else Inl UnicodeDecodeError)
         | _ \<Rightarrow> Inl UnicodeDecodeError)
      else Inl UnicodeDecodeError)"

definition utf8_decode :: "bytes \<Rightarrow> error + str" where
  "utf8_decode bs = utf8_decode_nat (map unat bs)"

definition utf_8 :: codec where
  "utf_8 = \<lparr>str_encode = utf8_encode, bytes_decode = utf8_decode\<rparr>"

subsection \<open>Two further codecs of the runtime: Latin-1 and UTF-32 (big endian)\<close>

fun latin1_encode :: "str \<Rightarrow> error + bytes" where
  "latin1_encode [] = Inr []"
| "latin1_encode (c # cs) =
     (if c < 256
      then (case latin1_encode cs of Inl e \<Rightarrow> Inl e | Inr rest \<Rightarrow> Inr (of_nat c # rest))
      else Inl UnicodeEncodeError)"

definition latin_1 :: codec where
  "latin_1 = \<lparr>str_encode = latin1_encode, bytes_decode = (\<lambda>bs. Inr (map unat bs))\<rparr>"

fun utf32be_encode :: "str \<Rightarrow> error + bytes" where
  "utf32be_encode [] = Inr []"
| "utf32be_encode (c # cs) =
     (if c < 1114112 \<and> \<not> is_surrogate c
      then (case utf32be_encode cs of
              Inl e \<Rightarrow> Inl e
            | Inr rest \<Rightarrow>
                Inr (of_nat (c div 16777216) # of_nat ((c div 65536) mod 256) #
                     of_nat ((c div 256) mod 256) # of_nat (c mod 256) # rest))
      else Inl UnicodeEncodeError)"

fun utf32be_decode :: "bytes \<Rightarrow> error + str" where
  "utf32be_decode [] = Inr []"
| "utf32be_decode (b0 # b1 # b2 # b3 # bs) =
     (let cp = unat b0 * 16777216 + unat b1 * 65536 + unat b2 * 256 + unat b3
      in if cp < 1114112 \<and> \<not> is_surrogate cp
         then cons_ok cp (utf32be_decode bs)
         else Inl UnicodeDecodeError)"
| "utf32be_decode _ = Inl UnicodeDecodeError"

definition utf_32_be :: codec where
  "utf_32_be = \<lparr>str_encode = utf32be_encode, bytes_decode = utf32be_decode\<rparr>"

section \<open>The program\<close>

subsection \<open>\<open>can_encode\<close>\<close>

definition can_encode :: "str \<Rightarrow> str \<Rightarrow> codec \<Rightarrow> error + bool" where
  "can_encode text hidden_text encoding =
     (case str_encode encoding hidden_text of
        Inl e \<Rightarrow> Inl e
      | Inr hidden_text_bytes \<Rightarrow>
          (let required_chars = length hidden_text_bytes * 8 + 1
           in Inr (length text \<ge> required_chars)))"

subsection \<open>\<open>iter_bits_of_str\<close>\<close>

text \<open>
  \<open>f"{byte:08b}"\<close> writes the eight binary digits of a byte, the most significant first,
  and the generator yields them as booleans.  The generator is drained by the caller in
  order, so it is the list of the bits still to come; its body, and with it the call of
  \<open>encode\<close>, runs at the first \<open>next\<close>, which \<open>write_steganography\<close> always reaches once
  its capacity check has passed.
\<close>

definition format_08b :: "byte \<Rightarrow> bool list" where
  "format_08b b = map (bit b) [7, 6, 5, 4, 3, 2, 1, 0]"

definition iter_bits_of_str :: "str \<Rightarrow> codec \<Rightarrow> error + bool list" where
  "iter_bits_of_str str encoding =
     (case str_encode encoding str of
        Inl e \<Rightarrow> Inl e
      | Inr bs \<Rightarrow> Inr (concat (map format_08b bs)))"

subsection \<open>\<open>write_steganography\<close>\<close>

text \<open>
  The loop over the carrier: the state is the characters and bits not yet consumed and
  the buffer.  It ends when the carrier is used up, or breaks, after writing one more
  character, when the bits are.
\<close>

fun write_loop :: "str \<Rightarrow> str \<Rightarrow> bool list \<Rightarrow> str \<Rightarrow> str \<times> str \<times> bool list" where
  "write_loop hidden_char [] hidden_text_bits buffer = (buffer, [], hidden_text_bits)"
| "write_loop hidden_char (char # text_chars) [] buffer = (buffer @ [char], text_chars, [])"
| "write_loop hidden_char (char # text_chars) (b # hidden_text_bits) buffer =
     write_loop hidden_char text_chars hidden_text_bits
       (buffer @ [char] @ (if b then hidden_char else []))"

text \<open>
  The capacity check is called without the \<open>encoding\<close> argument, so it runs with the
  default codec, whatever codec the caller chose for the bits.
\<close>

definition write_steganography :: "str \<Rightarrow> str \<Rightarrow> codec \<Rightarrow> str \<Rightarrow> error + str" where
  "write_steganography text hidden_text encoding hidden_char =
     (case can_encode text hidden_text utf_8 of
        Inl e \<Rightarrow> Inl e
      | Inr ok \<Rightarrow>
          if \<not> ok then Inl ValueError
          else
            (case iter_bits_of_str hidden_text encoding of
               Inl e \<Rightarrow> Inl e
             | Inr hidden_text_bits \<Rightarrow>
                 (case write_loop hidden_char text hidden_text_bits [] of
                    (buffer, text_chars, bits_left) \<Rightarrow>
                      if bits_left \<noteq> [] then Inl ValueError
                      else Inr (buffer @ text_chars))))"

subsection \<open>\<open>read_steganography\<close>\<close>

definition str_index :: "str \<Rightarrow> nat \<Rightarrow> error + codepoint" where
  "str_index text i = (if i < length text then Inr (text ! i) else Inl IndexError)"

text \<open>\<open>next\<close> on the \<open>enumerate\<close> iterator standing at position \<open>pos\<close>.\<close>

definition enumerate_next :: "str \<Rightarrow> nat \<Rightarrow> error + (nat \<times> codepoint) \<times> nat" where
  "enumerate_next text pos =
     (if pos < length text then Inr ((pos, text ! pos), pos + 1) else Inl StopIteration)"

text \<open>
  \<open>int(current_byte, 2)\<close> reads the digits as a binary numeral, and \<open>to_bytes(1)\<close>
  (with its default byte order, as Python 3.11 and later have it) makes one byte of a
  value below 256 and raises for a larger one.
\<close>

definition int_base2 :: "bool list \<Rightarrow> nat" where
  "int_base2 digits = foldl (\<lambda>n d. 2 * n + of_bool d) 0 digits"

definition to_bytes1 :: "nat \<Rightarrow> error + byte" where
  "to_bytes1 n = (if n < 256 then Inr (of_nat n) else Inl OverflowError)"

text \<open>
  The loop of the decoder.  Its state is the position of the iterator, the digits of the
  current byte and the bytes collected so far.
\<close>

function read_loop :: "str \<Rightarrow> str \<Rightarrow> nat \<Rightarrow> bool list \<Rightarrow> bytes \<Rightarrow> error + bytes" where
  "read_loop text hidden_char pos current_byte hidden_bytes =
     (case enumerate_next text pos of
        Inl _ \<Rightarrow> Inr hidden_bytes
      | Inr ((index, char), pos1) \<Rightarrow>
          if index + 1 \<ge> length text then Inr hidden_bytes
          else
            (case str_index text (index + 1) of
               Inl e \<Rightarrow> Inl e
             | Inr c \<Rightarrow>
                 (case (if [c] = hidden_char
                        then (case enumerate_next text pos1 of
                                Inl e \<Rightarrow> Inl e
                              | Inr (_, pos2) \<Rightarrow> Inr (current_byte @ [True], pos2))
                        else Inr (current_byte @ [False], pos1)) of
                    Inl e \<Rightarrow> Inl e
                  | Inr (current_byte', pos') \<Rightarrow>
                      if current_byte' = replicate 8 False then Inr hidden_bytes
                      else if length current_byte' = 8 then
                        (case to_bytes1 (int_base2 current_byte') of
                           Inl e \<Rightarrow> Inl e
                         | Inr b \<Rightarrow> read_loop text hidden_char pos' [] (hidden_bytes @ [b]))
                      else read_loop text hidden_char pos' current_byte' hidden_bytes)))"
  by pat_completeness auto
termination
  by (relation "measure (\<lambda>(text, hidden_char, pos, current_byte, hidden_bytes). length text - pos)")
     (auto simp: enumerate_next_def split: if_splits)

declare read_loop.simps [simp del]

definition read_steganography :: "str \<Rightarrow> codec \<Rightarrow> str \<Rightarrow> error + str" where
  "read_steganography text encoding hidden_char =
     (case read_loop text hidden_char 0 [] [] of
        Inl e \<Rightarrow> Inl e
      | Inr hidden_bytes \<Rightarrow> bytes_decode encoding hidden_bytes)"

section \<open>Specification-level functions\<close>

text \<open>
  Three functions written from the description of the format rather than from the loops:
  the carrier with the hidden character woven in after every character whose bit is
  set, the bits a reader records from a text (one for every character that has a
  successor, set when that successor is the hidden character, which is then skipped),
  and the bytes such a bit sequence stands for (groups of eight, cut off at the first
  all-zero group or at an unfinished group).  The loops of the program are proved
  equal to them below.
\<close>

fun weave :: "str \<Rightarrow> str \<Rightarrow> bool list \<Rightarrow> str" where
  "weave hidden_char [] bits = []"
| "weave hidden_char (c # cs) [] = c # cs"
| "weave hidden_char (c # cs) (b # bits) = c # (if b then hidden_char else []) @ weave hidden_char cs bits"

fun recorded_bits :: "str \<Rightarrow> str \<Rightarrow> bool list" where
  "recorded_bits hidden_char (c # d # rest) =
     (if [d] = hidden_char then True # recorded_bits hidden_char rest
      else False # recorded_bits hidden_char (d # rest))"
| "recorded_bits hidden_char _ = []"

function bytes_until_terminator :: "bool list \<Rightarrow> bytes" where
  "bytes_until_terminator bits =
     (if length bits < 8 then []
      else if take 8 bits = replicate 8 False then []
      else of_nat (int_base2 (take 8 bits)) # bytes_until_terminator (drop 8 bits))"
  by pat_completeness auto
termination
  by (relation "measure length") auto

declare bytes_until_terminator.simps [simp del]

section \<open>The encoder loop\<close>

lemma write_loop_weave:
  "write_loop hc cs bits buf = (buf', cs', bits') \<Longrightarrow>
     buf' @ cs' = buf @ weave hc cs bits \<and> bits' = drop (length cs) bits"
  by (induction hc cs bits buf rule: write_loop.induct) auto

lemma length_bits_of_bytes: "length (concat (map format_08b bs)) = 8 * length bs"
  by (induction bs) (auto simp: format_08b_def)

lemma length_weave:
  "length (weave hc cs bits) = length cs + length hc * length (filter id (take (length cs) bits))"
  by (induction hc cs bits rule: weave.induct) auto

lemma filter_weave:
  "filter (\<lambda>c. c \<noteq> m) (weave [m] cs bits) = filter (\<lambda>c. c \<noteq> m) cs"
  by (induction "[m]" cs bits rule: weave.induct) auto

lemma recorded_bits_plain:
  "\<forall>c\<in>set cs. [c] \<noteq> hc \<Longrightarrow> recorded_bits hc cs = replicate (length cs - 1) False"
  by (induction hc cs rule: recorded_bits.induct) (auto simp: Suc_diff_le)

lemma recorded_bits_weave:
  "length bits < length cs \<Longrightarrow> m \<notin> set cs \<Longrightarrow>
     recorded_bits [m] (weave [m] cs bits) = bits @ replicate (length cs - length bits - 1) False"
proof (induction "[m]" cs bits rule: weave.induct)
  case (1 bits)
  then show ?case by simp
next
  case (2 c cs)
  then have "\<forall>x\<in>set (c # cs). [x] \<noteq> [m]" by auto
  from recorded_bits_plain [OF this] show ?case by simp
next
  case (3 c cs b bits)
  then obtain d ds where cs: "cs = d # ds" by (cases cs) auto
  with 3 have "d \<noteq> m" by auto
  obtain w where w: "weave [m] cs bits = d # w" using cs by (cases bits) auto
  show ?case using 3 w \<open>d \<noteq> m\<close> by (cases b) auto
qed

section \<open>Bits and bytes\<close>

lemma foldl_base2:
  "foldl (\<lambda>n d. 2 * n + of_bool d) (a::nat) ds = a * 2 ^ length ds + horner_sum of_bool 2 (rev ds)"
  by (induction ds arbitrary: a) (simp_all add: horner_sum_append algebra_simps)

lemma upt_8: "[0..<8] = [0, 1, 2, 3, 4, 5, 6, 7::nat]"
  by code_simp

lemma replicate_8: "replicate 8 x = [x, x, x, x, x, x, x, x]"
  by (simp add: numeral_eq_Suc)


lemma int_base2_horner: "int_base2 ds = horner_sum of_bool 2 (rev ds)"
  by (simp add: int_base2_def foldl_base2)

lemma int_base2_bound: "int_base2 ds < 2 ^ length ds"
proof -
  have "horner_sum of_bool (2::nat) (rev ds) < 2 ^ length (rev ds)"
    by (rule horner_sum_of_bool_2_less)
  then show ?thesis by (simp add: int_base2_horner)
qed

lemma to_bytes1_ok: "length ds = 8 \<Longrightarrow> to_bytes1 (int_base2 ds) = Inr (of_nat (int_base2 ds))"
  using int_base2_bound [of ds] by (simp add: to_bytes1_def)

lemma unat_bit: "bit (unat (b::byte)) = bit b"
  by (rule ext) (simp add: bit_unsigned_iff)

lemma int_base2_format: "of_nat (int_base2 (format_08b b)) = b"
proof -
  have "rev (format_08b b) = map (bit b) [0..<8]"
    by (simp add: format_08b_def upt_8)
  then have "int_base2 (format_08b b) = horner_sum of_bool 2 (map (bit b) [0..<8])"
    by (simp add: int_base2_horner)
  also have "\<dots> = horner_sum of_bool 2 (map (bit (unat b)) [0..<8])"
    by (simp add: unat_bit)
  also have "\<dots> = take_bit 8 (unat b)"
    by (rule horner_sum_bit_eq_take_bit)
  finally have eq: "int_base2 (format_08b b) = take_bit 8 (unat b)" .
  have "unat b < 2 ^ LENGTH(8)" by (rule unsigned_less)
  then have "unat b < 2 ^ 8" by simp
  then have "take_bit 8 (unat b) = unat b" by (rule take_bit_nat_eq_self)
  with eq show ?thesis by simp
qed

lemma format_zero: "format_08b b = replicate 8 False \<longleftrightarrow> b = 0"
proof
  assume "format_08b b = replicate 8 False"
  then have "of_nat (int_base2 (format_08b b)) = (of_nat (int_base2 (replicate 8 False)) :: byte)"
    by simp
  then have "b = of_nat (int_base2 (replicate 8 False))"
    by (simp only: int_base2_format)
  then show "b = 0" by (simp add: int_base2_def replicate_8)
next
  assume "b = 0" then show "format_08b b = replicate 8 False"
    by (simp add: format_08b_def replicate_8)
qed


section \<open>The decoder loop\<close>

lemma read_loop_unfold:
  "read_loop text hc pos cur hb =
     (if length text \<le> pos + 1 then Inr hb
      else
        (let b = ([text ! (pos + 1)] = hc);
             cur' = cur @ [b];
             pos' = (if b then pos + 2 else pos + 1)
         in if cur' = replicate 8 False then Inr hb
            else if length cur' = 8
              then read_loop text hc pos' [] (hb @ [of_nat (int_base2 cur')])
              else read_loop text hc pos' cur' hb))"
  by (subst read_loop.simps)
     (simp add: enumerate_next_def str_index_def to_bytes1_ok Let_def)

lemma terminator_short: "length bits < 8 \<Longrightarrow> bytes_until_terminator bits = []"
  by (subst bytes_until_terminator.simps) simp

lemma terminator_byte:
  "length ds = 8 \<Longrightarrow>
     bytes_until_terminator (ds @ rest) =
       (if ds = replicate 8 False then [] else of_nat (int_base2 ds) # bytes_until_terminator rest)"
  by (subst bytes_until_terminator.simps) simp

lemma recorded_bits_drop:
  "pos + 1 < length text \<Longrightarrow>
     recorded_bits hc (drop pos text) =
       (if [text ! (pos + 1)] = hc then True # recorded_bits hc (drop (pos + 2) text)
        else False # recorded_bits hc (drop (pos + 1) text))"
proof -
  assume a: "pos + 1 < length text"
  then have "drop pos text = text ! pos # drop (Suc pos) text"
    by (simp add: Cons_nth_drop_Suc)
  moreover from a have "drop (Suc pos) text = text ! (Suc pos) # drop (Suc (Suc pos)) text"
    by (simp add: Cons_nth_drop_Suc)
  ultimately show ?thesis by simp
qed

lemma recorded_bits_short: "length cs \<le> 1 \<Longrightarrow> recorded_bits hc cs = []"
  by (induction hc cs rule: recorded_bits.induct) auto

lemma recorded_bits_end:
  "length text \<le> pos + 1 \<Longrightarrow> recorded_bits hc (drop pos text) = []"
  by (rule recorded_bits_short) simp

lemma read_loop_bits:
  "length cur < 8 \<Longrightarrow>
     read_loop text hc pos cur hb =
       Inr (hb @ bytes_until_terminator (cur @ recorded_bits hc (drop pos text)))"
proof (induction "length text - pos" arbitrary: pos cur hb rule: less_induct)
  case less
  show ?case
  proof (cases "length text \<le> pos + 1")
    case True
    then show ?thesis
      using less.prems
      by (subst read_loop_unfold) (simp add: recorded_bits_end terminator_short)
  next
    case False
    define b where "b = ([text ! (pos + 1)] = hc)"
    define pos' where "pos' = (if b then pos + 2 else pos + 1)"
    have rb: "recorded_bits hc (drop pos text) = b # recorded_bits hc (drop pos' text)"
      using False by (simp add: recorded_bits_drop b_def pos'_def)
    have smaller: "length text - pos' < length text - pos"
      using False unfolding pos'_def by (cases b) auto
    have unf: "read_loop text hc pos cur hb =
        (if cur @ [b] = replicate 8 False then Inr hb
         else if length (cur @ [b]) = 8
           then read_loop text hc pos' [] (hb @ [of_nat (int_base2 (cur @ [b]))])
           else read_loop text hc pos' (cur @ [b]) hb)"
      using False by (subst read_loop_unfold) (simp add: Let_def b_def pos'_def)
    show ?thesis
    proof (cases "length (cur @ [b]) = 8")
      case True
      have "bytes_until_terminator (cur @ recorded_bits hc (drop pos text)) =
          bytes_until_terminator ((cur @ [b]) @ recorded_bits hc (drop pos' text))"
        by (simp add: rb)
      also have "\<dots> = (if cur @ [b] = replicate 8 False then []
          else of_nat (int_base2 (cur @ [b])) # bytes_until_terminator (recorded_bits hc (drop pos' text)))"
        using True by (rule terminator_byte)
      finally have spec: "bytes_until_terminator (cur @ recorded_bits hc (drop pos text)) =
          (if cur @ [b] = replicate 8 False then []
           else of_nat (int_base2 (cur @ [b])) # bytes_until_terminator (recorded_bits hc (drop pos' text)))" .
      have ih: "read_loop text hc pos' [] (hb @ [of_nat (int_base2 (cur @ [b]))]) =
          Inr ((hb @ [of_nat (int_base2 (cur @ [b]))]) @
               bytes_until_terminator ([] @ recorded_bits hc (drop pos' text)))"
        by (rule less.hyps [OF smaller]) simp
      show ?thesis using True by (simp only: unf spec ih) simp
    next
      case False
      then have short: "length (cur @ [b]) < 8" using less.prems by simp
      then have nz: "cur @ [b] \<noteq> replicate 8 False"
        by (metis length_replicate less_irrefl)
      have ih: "read_loop text hc pos' (cur @ [b]) hb =
          Inr (hb @ bytes_until_terminator ((cur @ [b]) @ recorded_bits hc (drop pos' text)))"
        by (rule less.hyps [OF smaller short])
      show ?thesis using False nz by (simp only: unf ih rb) simp
    qed
  qed
qed


section \<open>UTF-8 decodes what it encodes\<close>

lemma utf8_char_bytes: "utf8_encode_char c = Inr ns \<Longrightarrow> \<forall>n\<in>set ns. n < 256"
  by (auto simp: utf8_encode_char_def is_surrogate_def split: if_splits)

lemma utf8_char_zero: "utf8_encode_char c = Inr ns \<Longrightarrow> 0 \<in> set ns \<longleftrightarrow> c = 0"
  by (auto simp: utf8_encode_char_def split: if_splits)

lemma split64: "(q::nat) div 64 * (64 * k) + q mod 64 * k = q * k"
proof -
  have "q * k = (q div 64 * 64 + q mod 64) * k"
    by (simp only: div_mult_mod_eq)
  also have "\<dots> = q div 64 * (64 * k) + q mod 64 * k"
    by (simp only: distrib_right mult.assoc)
  finally show ?thesis by (rule sym)
qed

lemma digits3: "(c::nat) div 4096 * 4096 + (c div 64) mod 64 * 64 + c mod 64 = c"
proof -
  have "c div 4096 = (c div 64) div 64" by (simp add: div_mult2_eq)
  then have "c div 4096 * 4096 + (c div 64) mod 64 * 64 = (c div 64) * 64"
    using split64 [of "c div 64" 64] by simp
  then show ?thesis by simp
qed

lemma digits4:
  "(c::nat) div 262144 * 262144 + (c div 4096) mod 64 * 4096 + (c div 64) mod 64 * 64 + c mod 64 = c"
proof -
  have "c div 262144 = (c div 4096) div 64" by (simp add: div_mult2_eq)
  then have "c div 262144 * 262144 + (c div 4096) mod 64 * 4096 = (c div 4096) * 4096"
    using split64 [of "c div 4096" 4096] by simp
  then show ?thesis using digits3 [of c] by simp
qed

lemma decode2:
  "2 \<le> x \<Longrightarrow> x < 32 \<Longrightarrow> y < 64 \<Longrightarrow>
     utf8_decode_nat ((192 + x) # (128 + y) # rest) = cons_ok (x * 64 + y) (utf8_decode_nat rest)"
  by (simp add: is_cont_def)

lemma decode3:
  "x < 16 \<Longrightarrow> y < 64 \<Longrightarrow> z < 64 \<Longrightarrow> 2048 \<le> x * 4096 + y * 64 + z \<Longrightarrow>
     \<not> is_surrogate (x * 4096 + y * 64 + z) \<Longrightarrow>
     utf8_decode_nat ((224 + x) # (128 + y) # (128 + z) # rest) =
       cons_ok (x * 4096 + y * 64 + z) (utf8_decode_nat rest)"
  by (simp add: is_cont_def)

lemma decode4:
  "x < 5 \<Longrightarrow> y < 64 \<Longrightarrow> z < 64 \<Longrightarrow> w < 64 \<Longrightarrow>
     65536 \<le> x * 262144 + y * 4096 + z * 64 + w \<Longrightarrow>
     x * 262144 + y * 4096 + z * 64 + w < 1114112 \<Longrightarrow>
     utf8_decode_nat ((240 + x) # (128 + y) # (128 + z) # (128 + w) # rest) =
       cons_ok (x * 262144 + y * 4096 + z * 64 + w) (utf8_decode_nat rest)"
  by (simp add: is_cont_def)

lemma utf8_char_decode:
  assumes "utf8_encode_char c = Inr ns"
  shows "utf8_decode_nat (ns @ rest) = cons_ok c (utf8_decode_nat rest)"
proof -
  consider (one) "c < 128" | (two) "128 \<le> c" "c < 2048"
    | (three) "2048 \<le> c" "c < 65536" "\<not> is_surrogate c"
    | (four) "65536 \<le> c" "c < 1114112"
    using assms by (auto simp: utf8_encode_char_def split: if_splits)
  then show ?thesis
  proof cases
    case one
    with assms show ?thesis by (auto simp: utf8_encode_char_def)
  next
    case two
    then have ns: "ns = [192 + c div 64, 128 + c mod 64]"
      using assms by (auto simp: utf8_encode_char_def)
    have "2 \<le> c div 64" using two by (simp add: le_div_geq)
    moreover have "c div 64 < 32" using two by (simp add: less_mult_imp_div_less)
    moreover have "c mod 64 < 64" by simp
    ultimately have "utf8_decode_nat ((192 + c div 64) # (128 + c mod 64) # rest) =
        cons_ok (c div 64 * 64 + c mod 64) (utf8_decode_nat rest)"
      by (rule decode2)
    then show ?thesis by (simp add: ns)
  next
    case three
    then have ns: "ns = [224 + c div 4096, 128 + (c div 64) mod 64, 128 + c mod 64]"
      using assms by (auto simp: utf8_encode_char_def)
    have "c div 4096 < 16" using three by (simp add: less_mult_imp_div_less)
    moreover have "(c div 64) mod 64 < 64" "c mod 64 < 64" by simp_all
    moreover have "2048 \<le> c div 4096 * 4096 + (c div 64) mod 64 * 64 + c mod 64"
      using three by (simp only: digits3)
    moreover have "\<not> is_surrogate (c div 4096 * 4096 + (c div 64) mod 64 * 64 + c mod 64)"
      using three by (simp only: digits3) simp
    ultimately have "utf8_decode_nat
        ((224 + c div 4096) # (128 + (c div 64) mod 64) # (128 + c mod 64) # rest) =
        cons_ok (c div 4096 * 4096 + (c div 64) mod 64 * 64 + c mod 64) (utf8_decode_nat rest)"
      by (rule decode3)
    then show ?thesis by (simp only: digits3 ns) simp
  next
    case four
    then have ns: "ns = [240 + c div 262144, 128 + (c div 4096) mod 64,
        128 + (c div 64) mod 64, 128 + c mod 64]"
      using assms by (auto simp: utf8_encode_char_def is_surrogate_def)
    have "c div 262144 < 5" using four by (simp add: less_mult_imp_div_less)
    moreover have "(c div 4096) mod 64 < 64" "(c div 64) mod 64 < 64" "c mod 64 < 64"
      by simp_all
    moreover have "65536 \<le> c div 262144 * 262144 + (c div 4096) mod 64 * 4096 +
        (c div 64) mod 64 * 64 + c mod 64"
      using four by (simp only: digits4)
    moreover have "c div 262144 * 262144 + (c div 4096) mod 64 * 4096 +
        (c div 64) mod 64 * 64 + c mod 64 < 1114112"
      using four by (simp only: digits4)
    ultimately have "utf8_decode_nat
        ((240 + c div 262144) # (128 + (c div 4096) mod 64) # (128 + (c div 64) mod 64) #
         (128 + c mod 64) # rest) =
        cons_ok (c div 262144 * 262144 + (c div 4096) mod 64 * 4096 +
          (c div 64) mod 64 * 64 + c mod 64) (utf8_decode_nat rest)"
      by (rule decode4)
    then show ?thesis by (simp only: digits4 ns) simp
  qed
qed

lemma utf8_nat_roundtrip:
  "utf8_encode_nat s = Inr ns \<Longrightarrow>
     utf8_decode_nat ns = Inr s \<and> (\<forall>n\<in>set ns. n < 256) \<and> (0 \<in> set ns \<longleftrightarrow> 0 \<in> set s)"
proof (induction s arbitrary: ns)
  case Nil
  then show ?case by simp
next
  case (Cons c cs)
  from Cons.prems obtain hd_bytes tl_bytes where
    h: "utf8_encode_char c = Inr hd_bytes" and t: "utf8_encode_nat cs = Inr tl_bytes"
    and ns: "ns = hd_bytes @ tl_bytes"
    by (auto split: sum.splits)
  from Cons.IH [OF t] utf8_char_decode [OF h, of tl_bytes] utf8_char_bytes [OF h]
    utf8_char_zero [OF h]
  show ?case by (auto simp: ns cons_ok_def)
qed

lemma map_unat_of_nat: "\<forall>n\<in>set ns. n < 256 \<Longrightarrow> map unat (map of_nat ns :: bytes) = ns"
  by (induction ns) (simp_all add: unat_of_nat)

lemma utf8_roundtrip: "utf8_encode s = Inr bs \<Longrightarrow> utf8_decode bs = Inr s"
  using utf8_nat_roundtrip [of s] map_unat_of_nat
  by (auto simp: utf8_encode_def utf8_decode_def split: sum.splits)

lemma utf8_zero_byte: "utf8_encode s = Inr bs \<Longrightarrow> 0 \<in> set bs \<longleftrightarrow> 0 \<in> set s"
proof -
  assume a: "utf8_encode s = Inr bs"
  then obtain ns where ns: "utf8_encode_nat s = Inr ns" and bs: "bs = map of_nat ns"
    by (auto simp: utf8_encode_def split: sum.splits)
  from utf8_nat_roundtrip [OF ns] have small: "\<forall>n\<in>set ns. n < 256"
    and z: "0 \<in> set ns \<longleftrightarrow> 0 \<in> set s" by auto
  have "(0::byte) \<in> set (map of_nat ns) \<longleftrightarrow> 0 \<in> set ns"
  proof
    assume "(0::byte) \<in> set (map of_nat ns)"
    then obtain n where n: "n \<in> set ns" "(of_nat n :: byte) = 0" by auto
    with small have "n < 256" by auto
    with n(2) have "n = 0" by (simp add: unat_of_nat word_eq_iff_unsigned [where ?'a = nat])
    with n(1) show "0 \<in> set ns" by simp
  next
    assume "0 \<in> set ns"
    then have "of_nat 0 \<in> (of_nat ` set ns :: byte set)" by (rule imageI)
    then show "(0::byte) \<in> set (map of_nat ns)" by simp
  qed
  with z bs show ?thesis by simp
qed

section \<open>Encoder and decoder in closed form\<close>

lemma write_steganography_weave:
  "write_steganography text hidden_text encoding hidden_char =
     (case can_encode text hidden_text utf_8 of
        Inl e \<Rightarrow> Inl e
      | Inr ok \<Rightarrow>
          if \<not> ok then Inl ValueError
          else
            (case str_encode encoding hidden_text of
               Inl e \<Rightarrow> Inl e
             | Inr payload \<Rightarrow>
                 if length text < 8 * length payload then Inl ValueError
                 else Inr (weave hidden_char text (concat (map format_08b payload)))))"
proof -
  have loop: "(case write_loop hidden_char text bits [] of
        (buffer, text_chars, bits_left) \<Rightarrow>
          if bits_left \<noteq> [] then Inl ValueError else Inr (buffer @ text_chars)) =
      (if length text < length bits then Inl ValueError else Inr (weave hidden_char text bits))"
    for bits
  proof -
    obtain buffer text_chars bits_left
      where w: "write_loop hidden_char text bits [] = (buffer, text_chars, bits_left)"
      by (cases "write_loop hidden_char text bits []") auto
    from write_loop_weave [OF w] show ?thesis by (auto simp: w)
  qed
  show ?thesis
    by (simp add: write_steganography_def iter_bits_of_str_def loop length_bits_of_bytes
        split: sum.splits)
qed

lemma terminator_zeros: "bytes_until_terminator (replicate k False) = []"
proof (cases "k < 8")
  case True
  then show ?thesis by (simp add: terminator_short)
next
  case False
  then have "take 8 (replicate k False) = replicate 8 False" by (simp add: min_def)
  then show ?thesis by (subst bytes_until_terminator.simps) simp
qed

lemma terminator_payload:
  "0 \<notin> set payload \<Longrightarrow>
     bytes_until_terminator (concat (map format_08b payload) @ replicate k False) = payload"
proof (induction payload)
  case Nil
  then show ?case by (simp add: terminator_zeros)
next
  case (Cons b payload)
  have len: "length (format_08b b) = 8" by (simp add: format_08b_def)
  from Cons.prems have "b \<noteq> 0" by auto
  then have nz: "format_08b b \<noteq> replicate 8 False" by (simp add: format_zero)
  have "bytes_until_terminator (format_08b b @ (concat (map format_08b payload) @ replicate k False)) =
      of_nat (int_base2 (format_08b b)) #
        bytes_until_terminator (concat (map format_08b payload) @ replicate k False)"
    using nz by (simp only: terminator_byte [OF len] if_False)
  with Cons show ?case by (simp add: int_base2_format)
qed

lemma read_steganography_bits:
  "read_steganography text encoding hidden_char =
     bytes_decode encoding (bytes_until_terminator (recorded_bits hidden_char text))"
  using read_loop_bits [of "[]" "text" hidden_char 0 "[]"]
  by (simp add: read_steganography_def)

lemma read_weave:
  assumes "length bits < length cs" "m \<notin> set cs" "bits = concat (map format_08b payload)"
    "0 \<notin> set payload"
  shows "read_steganography (weave [m] cs bits) encoding [m] = bytes_decode encoding payload"
  using assms
  by (simp add: read_steganography_bits recorded_bits_weave terminator_payload)

text \<open>
  Reading back what was written, for any codec: when the payload has no zero byte and
  the carrier no hidden character, the decoder hands the payload to the codec.
\<close>

lemma write_read_codec:
  assumes "write_steganography C H encoding [m] = Inr out"
    and "str_encode encoding H = Inr payload" and "0 \<notin> set payload"
    and "8 * length payload < length C" and "m \<notin> set C"
  shows "read_steganography out encoding [m] = bytes_decode encoding payload"
proof -
  from assms(1,2) have "out = weave [m] C (concat (map format_08b payload))"
    by (auto simp: write_steganography_weave split: sum.splits if_splits)
  moreover have "length (concat (map format_08b payload)) < length C"
    using assms(4) by (simp add: length_bits_of_bytes)
  ultimately show ?thesis
    using assms(3,5) by (simp add: read_weave)
qed

lemma utf_8_simps:
  "str_encode utf_8 = utf8_encode" "bytes_decode utf_8 = utf8_decode"
  by (simp_all add: utf_8_def)

lemma read_loop_total: "\<exists>bs. read_loop text hc pos cur hb = Inr bs"
proof (induction "length text - pos" arbitrary: pos cur hb rule: less_induct)
  case less
  show ?case
  proof (cases "length text \<le> pos + 1")
    case True
    then show ?thesis by (subst read_loop_unfold) simp
  next
    case False
    define b where "b = ([text ! (pos + 1)] = hc)"
    define pos' where "pos' = (if b then pos + 2 else pos + 1)"
    have smaller: "length text - pos' < length text - pos"
      using False unfolding pos'_def by (cases b) auto
    have unf: "read_loop text hc pos cur hb =
        (if cur @ [b] = replicate 8 False then Inr hb
         else if length (cur @ [b]) = 8
           then read_loop text hc pos' [] (hb @ [of_nat (int_base2 (cur @ [b]))])
           else read_loop text hc pos' (cur @ [b]) hb)"
      using False by (subst read_loop_unfold) (simp add: Let_def b_def pos'_def)
    from less [OF smaller] show ?thesis by (simp only: unf split: if_split) simp
  qed
qed

lemma length_recorded_bits: "length (recorded_bits hc cs) \<le> length cs - 1"
  by (induction hc cs rule: recorded_bits.induct) auto

text \<open>With the default codec the check after the loop finds no bit left.\<close>

lemma guard_unreachable_default:
  assumes "can_encode text hidden_text utf_8 = Inr True"
    and "iter_bits_of_str hidden_text utf_8 = Inr bits"
  shows "snd (snd (write_loop hidden_char text bits [])) = []"
proof -
  from assms have "length bits < length text"
    by (auto simp: can_encode_def iter_bits_of_str_def length_bits_of_bytes split: sum.splits)
  moreover obtain buffer text_chars bits_left
    where w: "write_loop hidden_char text bits [] = (buffer, text_chars, bits_left)"
    by (cases "write_loop hidden_char text bits []") auto
  ultimately show ?thesis using write_loop_weave [OF w] by (simp add: w)
qed

text \<open>
  With the default codec a carrier shorter than the required slots makes the encoder
  raise; and with any codec no text is returned for a carrier that has fewer characters
  than the payload has bits.
\<close>

lemma short_carrier_default:
  assumes "str_encode utf_8 hidden_text = Inr payload"
    and "length text < 8 * length payload + 1"
  shows "write_steganography text hidden_text utf_8 hidden_char = Inl ValueError"
  using assms by (simp add: write_steganography_def can_encode_def)

lemma no_partial_output:
  assumes "str_encode encoding hidden_text = Inr payload"
    and "length text < 8 * length payload"
  shows "write_steganography text hidden_text encoding hidden_char \<noteq> Inr out"
  using assms by (auto simp: write_steganography_weave split: sum.splits)

section \<open>The claims\<close>

text \<open>
  Claim C1 (round trip), as the program has it.  The decoder stops at the first zero byte
  and takes every hidden character it meets for a bit, so the hidden text comes back
  only when it contains no NUL character and the carrier contains no hidden character.
  Under these two conditions, with the default codec UTF-8 and any single hidden
  character \<open>m\<close>: if \<open>can_encode\<close> is true, then \<open>write_steganography\<close> succeeds and
  \<open>read_steganography\<close> returns exactly the hidden text from its output.  The example
  of the source's \<open>test\<close> function is an instance.
\<close>

theorem write_read_roundtrip:
  assumes "can_encode C H utf_8 = Inr True" and "0 \<notin> set H" and "m \<notin> set C"
  shows "\<exists>out. write_steganography C H utf_8 [m] = Inr out \<and>
           read_steganography out utf_8 [m] = Inr H"
proof -
  from assms(1) obtain payload where
    enc: "str_encode utf_8 H = Inr payload" and cap: "8 * length payload + 1 \<le> length C"
    by (auto simp: can_encode_def split: sum.splits)
  let ?bits = "concat (map format_08b payload)"
  from enc have enc8: "utf8_encode H = Inr payload" by (simp add: utf_8_simps)
  have w: "write_steganography C H utf_8 [m] = Inr (weave [m] C ?bits)"
    using assms(1) enc cap by (simp add: write_steganography_weave)
  have z: "0 \<notin> set payload"
    using utf8_zero_byte [OF enc8] assms(2) by simp
  have "length ?bits < length C" using cap by (simp add: length_bits_of_bytes)
  then have "read_steganography (weave [m] C ?bits) utf_8 [m] = bytes_decode utf_8 payload"
    using assms(3) z by (rule read_weave [OF _ _ refl])
  also have "\<dots> = Inr H" using utf8_roundtrip [OF enc8] by (simp add: utf_8_simps)
  finally show ?thesis using w by simp
qed

theorem write_read_roundtrip_witness:
  "can_encode (literal ''This is some long text to allow for encoding'') (literal ''abcd'') utf_8 =
     Inr True \<and>
   0 \<notin> set (literal ''abcd'') \<and>
   95 \<notin> set (literal ''This is some long text to allow for encoding'') \<and>
   (\<exists>out. write_steganography (literal ''This is some long text to allow for encoding'')
            (literal ''abcd'') utf_8 [95] = Inr out \<and>
      read_steganography out utf_8 [95] = Inr (literal ''abcd''))"
proof -
  have h1: "can_encode (literal ''This is some long text to allow for encoding'')
      (literal ''abcd'') utf_8 = Inr True"
    by code_simp
  have h2: "0 \<notin> set (literal ''abcd'')" by (simp add: literal_def)
  have h3: "95 \<notin> set (literal ''This is some long text to allow for encoding'')"
    by (simp add: literal_def)
  from write_read_roundtrip [OF h1 h2 h3] h1 h2 h3 show ?thesis by blast
qed

theorem write_read_roundtrip_counterexample:
  "can_encode (literal ''123456789'') [0] utf_8 = Inr True \<and>
   write_steganography (literal ''123456789'') [0] utf_8 (literal ''_'') = Inr (literal ''123456789'') \<and>
   read_steganography (literal ''123456789'') utf_8 (literal ''_'') = Inr [] \<and>
   read_steganography (literal ''123456789'') utf_8 (literal ''_'') \<noteq> Inr [0] \<and>
   can_encode (literal ''a_bcdefghi'') (literal ''a'') utf_8 = Inr True \<and>
   write_steganography (literal ''a_bcdefghi'') (literal ''a'') utf_8 (literal ''_'') =
     Inr (literal ''a__b_cdefg_hi'') \<and>
   read_steganography (literal ''a__b_cdefg_hi'') utf_8 (literal ''_'') = Inl UnicodeDecodeError \<and>
   read_steganography (literal ''a__b_cdefg_hi'') utf_8 (literal ''_'') \<noteq> Inr (literal ''a'')"
  by code_simp

text \<open>
  Claim C2 (capacity boundary).  When the hidden text encodes to a payload of \<open>B\<close>
  bytes, \<open>can_encode\<close> returns whether the carrier has at least \<open>8 * B + 1\<close> characters:
  false for every shorter carrier, true from exactly this length on.
\<close>

theorem can_encode_boundary:
  assumes "str_encode encoding hidden_text = Inr payload"
  shows "can_encode text hidden_text encoding = Inr (8 * length payload + 1 \<le> length text)"
  using assms by (simp add: can_encode_def mult.commute)

theorem can_encode_boundary_witness:
  "str_encode utf_8 (literal ''abcd'') = Inr [97, 98, 99, 100] \<and>
   can_encode (replicate 33 120) (literal ''abcd'') utf_8 = Inr True \<and>
   can_encode (replicate 32 120) (literal ''abcd'') utf_8 = Inr False"
proof -
  have h: "str_encode utf_8 (literal ''abcd'') = Inr [97, 98, 99, 100]" by code_simp
  show ?thesis
    using h can_encode_boundary [OF h, of "replicate 33 120"]
      can_encode_boundary [OF h, of "replicate 32 120"]
    by simp
qed

text \<open>
  Claim C3 (the capacity check and the caller's encoding).  The check inside
  \<open>write_steganography\<close> is made with the default codec.  For the nine-character carrier
  \<open>123456789\<close>, the hidden text \<open>U+00E9\<close> and Latin-1, the payload is one byte and
  \<open>can_encode\<close> with Latin-1 says the carrier is long enough, but the encoder checks the
  two-byte UTF-8 payload and raises \<open>ValueError\<close>.
\<close>

theorem precheck_ignores_encoding:
  "str_encode latin_1 [233] = Inr [233] \<and>
   can_encode (literal ''123456789'') [233] latin_1 = Inr True \<and>
   can_encode (literal ''123456789'') [233] utf_8 = Inr False \<and>
   write_steganography (literal ''123456789'') [233] latin_1 (literal ''_'') = Inl ValueError"
  by code_simp

text \<open>
  Claim C4 (termination rule of the decoder).  When the bit read at the current
  character is the eighth digit of the current byte, the eight digits are taken as a
  byte at once: if all are zero the loop stops with the bytes collected before, and
  the zero byte is not among them; otherwise the loop goes on with the byte appended and
  an empty current byte.  As a consequence the bytes collected from a whole text are the
  groups of eight recorded bits up to the first all-zero group.
\<close>

theorem decoder_byte_rule:
  "(length current_byte = 7 \<longrightarrow> pos + 1 < length text \<longrightarrow>
      digits = current_byte @ [[text ! (pos + 1)] = hidden_char] \<longrightarrow>
      pos' = (if [text ! (pos + 1)] = hidden_char then pos + 2 else pos + 1) \<longrightarrow>
      read_loop text hidden_char pos current_byte hidden_bytes =
        (if digits = replicate 8 False then Inr hidden_bytes
         else read_loop text hidden_char pos' []
                (hidden_bytes @ [of_nat (int_base2 digits)]))) \<and>
   read_loop text hidden_char 0 [] [] =
     Inr (bytes_until_terminator (recorded_bits hidden_char text))"
proof (intro conjI impI)
  assume "length current_byte = 7" and "pos + 1 < length text"
    and "digits = current_byte @ [[text ! (pos + 1)] = hidden_char]"
    and "pos' = (if [text ! (pos + 1)] = hidden_char then pos + 2 else pos + 1)"
  then show "read_loop text hidden_char pos current_byte hidden_bytes =
        (if digits = replicate 8 False then Inr hidden_bytes
         else read_loop text hidden_char pos' []
                (hidden_bytes @ [of_nat (int_base2 digits)]))"
    by (subst read_loop_unfold) (simp add: Let_def)
next
  show "read_loop text hidden_char 0 [] [] =
      Inr (bytes_until_terminator (recorded_bits hidden_char text))"
    using read_loop_bits [of "[]" "text" hidden_char 0 "[]"] by simp
qed

theorem decoder_byte_rule_witness:
  "read_loop [97, 95, 98] [95] 0 [False, True, False, False, False, False, False] [7] =
     read_loop [97, 95, 98] [95] 2 [] [7, 65] \<and>
   read_loop [97, 98, 99] [95] 0 [False, False, False, False, False, False, False] [7] = Inr [7]"
proof -
  have ev: "int_base2 [False, True, False, False, False, False, False, True] = 65"
    by (simp add: int_base2_def)
  have one: "read_loop [97, 95, 98] [95] 0 [False, True, False, False, False, False, False] [7] =
     read_loop [97, 95, 98] [95] 2 [] [7, 65]"
    using decoder_byte_rule [of "[False, True, False, False, False, False, False]" 0
        "[97, 95, 98]" "[False, True, False, False, False, False, False, True]" "[95]" 2 "[7]"]
    by (simp add: replicate_8 ev)
  have zero: "read_loop [97, 98, 99] [95] 0 [False, False, False, False, False, False, False] [7] =
     Inr [7]"
    using decoder_byte_rule [of "[False, False, False, False, False, False, False]" 0
        "[97, 98, 99]" "replicate 8 False" "[95]" 1 "[7]"]
    by (simp add: replicate_8)
  from one zero show ?thesis by simp
qed

text \<open>
  Claim C5 (no output when the carrier is too short).  The slots a hidden text requires
  are eight for each byte of its payload under the caller's encoding, plus one.  The
  capacity check counts the bytes of the UTF-8 payload instead, so a carrier that is too
  short for the caller's payload can pass it: for a carrier of 32 characters, the hidden
  text \<open>a\<close> and UTF-32 (big endian) the payload has four bytes and requires 33 slots,
  \<open>can_encode\<close> with that encoding is false, and \<open>write_steganography\<close> returns a text
  instead of raising \<open>ValueError\<close>.
\<close>

theorem short_carrier_returns_text:
  "str_encode utf_32_be (literal ''a'') = Inr [0, 0, 0, 97] \<and>
   length (literal ''12345678901234567890123456789012'') = 32 \<and>
   can_encode (literal ''12345678901234567890123456789012'') (literal ''a'') utf_32_be =
     Inr False \<and>
   can_encode (literal ''12345678901234567890123456789012'') (literal ''a'') utf_8 =
     Inr True \<and>
   write_steganography (literal ''12345678901234567890123456789012'') (literal ''a'')
       utf_32_be (literal ''_'') =
     Inr (literal ''12345678901234567890123456_7_89012_'') \<and>
   write_steganography (literal ''12345678901234567890123456789012'') (literal ''a'')
       utf_32_be (literal ''_'') \<noteq> Inl ValueError"
proof -
  have h1: "str_encode utf_32_be (literal ''a'') = Inr [0, 0, 0, 97]"
    by (simp add: utf_32_be_def literal_def is_surrogate_def)
  have h2: "length (literal ''12345678901234567890123456789012'') = 32"
    by (simp add: literal_def)
  have h3: "can_encode (literal ''12345678901234567890123456789012'') (literal ''a'') utf_32_be =
      Inr False"
    by (simp add: can_encode_def h1 h2)
  have h4: "can_encode (literal ''12345678901234567890123456789012'') (literal ''a'') utf_8 =
      Inr True"
    by code_simp
  have h5: "weave (literal ''_'') (literal ''12345678901234567890123456789012'')
      (concat (map format_08b [0, 0, 0, 97])) = literal ''12345678901234567890123456_7_89012_''"
    by code_simp
  have fits: "\<not> length (literal ''12345678901234567890123456789012'') <
      8 * length [0, 0, 0, 97 :: byte]"
    by (simp add: h2)
  have h6: "write_steganography (literal ''12345678901234567890123456789012'') (literal ''a'')
      utf_32_be (literal ''_'') = Inr (literal ''12345678901234567890123456_7_89012_'')"
    by (simp only: write_steganography_weave h1 h4 h5 fits sum.case simp_thms if_True if_False)
  from h1 h2 h3 h4 h6 show ?thesis by simp
qed

text \<open>
  Claim C6 (length of the output).  When \<open>write_steganography\<close> succeeds with a hidden
  character of length 1, all bits of the payload have been consumed and the output is
  longer than the carrier by the number of bits that are set.
\<close>

theorem output_length:
  assumes "write_steganography text hidden_text encoding hidden_char = Inr out"
    and "length hidden_char = 1"
  shows "\<exists>bits. iter_bits_of_str hidden_text encoding = Inr bits \<and>
           take (length text) bits = bits \<and>
           length out = length text + length (filter id (take (length text) bits))"
proof -
  from assms(1) obtain payload where
    enc: "str_encode encoding hidden_text = Inr payload"
    and fit: "8 * length payload \<le> length text"
    and out: "out = weave hidden_char text (concat (map format_08b payload))"
    by (auto simp: write_steganography_weave split: sum.splits if_splits)
  let ?bits = "concat (map format_08b payload)"
  have "iter_bits_of_str hidden_text encoding = Inr ?bits"
    by (simp add: iter_bits_of_str_def enc)
  moreover have "take (length text) ?bits = ?bits"
    using fit by (simp add: length_bits_of_bytes)
  moreover have "length out = length text + length (filter id (take (length text) ?bits))"
    using assms(2) by (simp add: out length_weave)
  ultimately show ?thesis by blast
qed

theorem output_length_witness:
  "write_steganography (literal ''123456789'') (literal ''a'') utf_8 (literal ''_'') =
     Inr (literal ''12_3_45678_9'') \<and>
   length (literal ''_'') = 1 \<and>
   iter_bits_of_str (literal ''a'') utf_8 = Inr [False, True, True, False, False, False, False, True] \<and>
   length (literal ''12_3_45678_9'') = length (literal ''123456789'') + 3"
proof -
  have h1: "write_steganography (literal ''123456789'') (literal ''a'') utf_8 (literal ''_'') =
     Inr (literal ''12_3_45678_9'')" by code_simp
  have h2: "length (literal ''_'') = 1" by (simp add: literal_def)
  have h3: "iter_bits_of_str (literal ''a'') utf_8 =
     Inr [False, True, True, False, False, False, False, True]" by code_simp
  from output_length [OF h1 h2] h1 h2 h3 show ?thesis by (auto simp: literal_def)
qed

text \<open>
  Claim C7 (the check after the loop).  The capacity check is made with UTF-8 and the
  bits come from the caller's codec, so the check after the loop can fire: for the
  carrier \<open>123456789\<close>, the hidden text \<open>a\<close> and UTF-32 (big endian) the capacity check
  passes, the loop leaves bits unread, and the encoder raises \<open>ValueError\<close> there.
\<close>

theorem guard_reached:
  "can_encode (literal ''123456789'') (literal ''a'') utf_8 = Inr True \<and>
   str_encode utf_32_be (literal ''a'') = Inr [0, 0, 0, 97] \<and>
   snd (snd (write_loop (literal ''_'') (literal ''123456789'')
     (concat (map format_08b [0, 0, 0, 97])) [])) \<noteq> [] \<and>
   write_steganography (literal ''123456789'') (literal ''a'') utf_32_be (literal ''_'') =
     Inl ValueError"
proof -
  have h1: "can_encode (literal ''123456789'') (literal ''a'') utf_8 = Inr True"
    by code_simp
  have h2: "str_encode utf_32_be (literal ''a'') = Inr [0, 0, 0, 97]"
    by (simp add: utf_32_be_def literal_def is_surrogate_def)
  have h3: "snd (snd (write_loop (literal ''_'') (literal ''123456789'')
     (concat (map format_08b [0, 0, 0, 97])) [])) \<noteq> []"
    by code_simp
  have h4: "write_steganography (literal ''123456789'') (literal ''a'') utf_32_be (literal ''_'') =
     Inl ValueError"
    by (simp add: write_steganography_weave h1 h2) (simp add: literal_def)
  from h1 h2 h3 h4 show ?thesis by simp
qed

text \<open>
  Claim C8 (end of text).  At the last character of the text the loop of the decoder
  stops and hands on the bytes collected so far, whatever digits the current byte holds.
  The loop never raises: the result of \<open>read_steganography\<close> is the codec's decoding
  of the collected bytes.  A text of at most eight characters cannot complete a byte and
  is decoded as the empty byte sequence.
\<close>

theorem end_of_text_stops:
  "(pos + 1 = length text \<longrightarrow>
      read_loop text hidden_char pos current_byte hidden_bytes = Inr hidden_bytes) \<and>
   (\<exists>bs. read_loop text hidden_char 0 [] [] = Inr bs \<and>
      read_steganography text encoding hidden_char = bytes_decode encoding bs) \<and>
   (length text \<le> 8 \<longrightarrow> read_steganography text encoding hidden_char = bytes_decode encoding [])"
proof (intro conjI impI)
  assume "pos + 1 = length text"
  then show "read_loop text hidden_char pos current_byte hidden_bytes = Inr hidden_bytes"
    by (subst read_loop_unfold) simp
next
  obtain bs where "read_loop text hidden_char 0 [] [] = Inr bs"
    using read_loop_total by blast
  then show "\<exists>bs. read_loop text hidden_char 0 [] [] = Inr bs \<and>
      read_steganography text encoding hidden_char = bytes_decode encoding bs"
    by (simp add: read_steganography_def)
next
  assume "length text \<le> 8"
  with length_recorded_bits [of hidden_char "text"]
  have "length (recorded_bits hidden_char text) < 8 \<or> text = []" by (cases "text") auto
  then have "bytes_until_terminator (recorded_bits hidden_char text) = []"
    by (auto simp: terminator_short)
  then show "read_steganography text encoding hidden_char = bytes_decode encoding []"
    by (simp add: read_steganography_bits)
qed

theorem end_of_text_stops_witness:
  "2 + 1 = length (literal ''a_b'') \<and>
   read_loop (literal ''a_b'') (literal ''_'') 2 [True, False] [65] = Inr [65] \<and>
   length (literal ''a_b'') \<le> 8 \<and>
   read_steganography (literal ''a_b'') utf_8 (literal ''_'') = Inr []"
proof -
  have h1: "2 + 1 = length (literal ''a_b'')" by (simp add: literal_def)
  have h2: "length (literal ''a_b'') \<le> 8" by (simp add: literal_def)
  have ev: "bytes_decode utf_8 [] = Inr []" by code_simp
  from end_of_text_stops [of 2 "literal ''a_b''" "literal ''_''" "[True, False]" "[65]" utf_8]
    h1 h2 ev
  show ?thesis by simp
qed

text \<open>
  Claim C9 (empty hidden text), as the program has it.  With the default codec, encoding
  the empty hidden text into a non-empty carrier succeeds and returns the carrier
  unchanged.  Decoding that output gives the empty text when the carrier contains no
  hidden character; a carrier that contains one is read as carrying bits.
\<close>

theorem empty_payload:
  assumes "C \<noteq> []"
  shows "write_steganography C [] utf_8 hidden_char = Inr C \<and>
         ((\<forall>c\<in>set C. [c] \<noteq> hidden_char) \<longrightarrow>
            read_steganography C utf_8 hidden_char = Inr [])"
proof
  obtain c cs where C: "C = c # cs" using assms by (cases C) auto
  have enc: "str_encode utf_8 [] = Inr []" by (simp add: utf_8_def utf8_encode_def)
  show "write_steganography C [] utf_8 hidden_char = Inr C"
    by (simp add: write_steganography_weave can_encode_def enc C)
  show "(\<forall>c\<in>set C. [c] \<noteq> hidden_char) \<longrightarrow>
      read_steganography C utf_8 hidden_char = Inr []"
  proof
    assume "\<forall>c\<in>set C. [c] \<noteq> hidden_char"
    then have "recorded_bits hidden_char C = replicate (length C - 1) False"
      by (rule recorded_bits_plain)
    then show "read_steganography C utf_8 hidden_char = Inr []"
      by (simp add: read_steganography_bits terminator_zeros utf_8_def utf8_decode_def)
  qed
qed

theorem empty_payload_witness:
  "literal ''plain text, long enough'' \<noteq> [] \<and>
   write_steganography (literal ''plain text, long enough'') [] utf_8 (literal ''_'') =
     Inr (literal ''plain text, long enough'') \<and>
   read_steganography (literal ''plain text, long enough'') utf_8 (literal ''_'') = Inr []"
proof -
  have h1: "literal ''plain text, long enough'' \<noteq> []" by (simp add: literal_def)
  have h2: "\<forall>c\<in>set (literal ''plain text, long enough''). [c] \<noteq> literal ''_''"
    by (simp add: literal_def)
  from empty_payload [OF h1, of "literal ''_''"] h1 h2 show ?thesis by blast
qed

theorem empty_payload_counterexample:
  "literal ''ab_cdefgh_i'' \<noteq> [] \<and>
   write_steganography (literal ''ab_cdefgh_i'') [] utf_8 (literal ''_'') =
     Inr (literal ''ab_cdefgh_i'') \<and>
   read_steganography (literal ''ab_cdefgh_i'') utf_8 (literal ''_'') = Inr (literal ''A'') \<and>
   read_steganography (literal ''ab_cdefgh_i'') utf_8 (literal ''_'') \<noteq> Inr []"
  by code_simp

text \<open>
  Claim C10 (the carrier is preserved).  When the carrier contains no hidden character
  and \<open>write_steganography\<close> succeeds, removing every hidden character from the output
  gives back the carrier.
\<close>

theorem carrier_preserved:
  assumes "write_steganography C H encoding [m] = Inr out" and "m \<notin> set C"
  shows "filter (\<lambda>c. c \<noteq> m) out = C"
proof -
  from assms(1) obtain bits where "out = weave [m] C bits"
    by (auto simp: write_steganography_weave split: sum.splits if_splits)
  then have "filter (\<lambda>c. c \<noteq> m) out = filter (\<lambda>c. c \<noteq> m) C"
    by (simp add: filter_weave)
  also have "\<dots> = C" using assms(2) by (auto simp: filter_id_conv)
  finally show ?thesis .
qed

theorem carrier_preserved_witness:
  "write_steganography (literal ''123456789'') (literal ''a'') utf_8 [95] =
     Inr (literal ''12_3_45678_9'') \<and>
   95 \<notin> set (literal ''123456789'') \<and>
   filter (\<lambda>c. c \<noteq> 95) (literal ''12_3_45678_9'') = literal ''123456789''"
proof -
  have h1: "write_steganography (literal ''123456789'') (literal ''a'') utf_8 [95] =
     Inr (literal ''12_3_45678_9'')" by code_simp
  have h2: "95 \<notin> set (literal ''123456789'')" by (simp add: literal_def)
  from carrier_preserved [OF h1 h2] h1 h2 show ?thesis by blast
qed

end
